theory Spec2Isabelle
  imports Main "HOL-Library.Word"
begin

unbundle bit_operations_syntax

section \<open>Appendable hash tree: data model\<close>

type_synonym byte = "8 word"
type_synonym uint64 = "64 word"

text \<open>
  The error values of package ahtree, the two errors the model of the external
  log package can produce on its own (\<open>ErrEOF\<close>, \<open>ErrLogFull\<close>), an
  arbitrary error injected into a log (\<open>ErrLog\<close>), the aggregation wrapper
  \<open>multierr.MultiErr\<close>, and the Go runtime panic for an integer division by zero.
\<close>

datatype error =
    ErrIllegalArguments
  | ErrorPathIsNotADirectory
  | ErrCorruptedCLog
  | ErrorCorruptedData
  | ErrorCorruptedDigests
  | ErrAlreadyClosed
  | ErrEmptyTree
  | ErrReadOnly
  | ErrUnexistentData
  | ErrEOF
  | ErrLogFull
  | ErrLog string
  | MultiErr "error list"
  | PanicDivideByZero

section \<open>Geometry\<close>

text \<open>
  \<open>nodesUpto\<close>: the loop \<open>for { if n < (1 << l) { break }; ...; l++ }\<close> on
  \<open>uint64\<close>. The constant \<open>1\<close> takes the type of \<open>n\<close>, so \<open>1 << l\<close> is
  \<open>0\<close> once \<open>l\<close> reaches 64, and \<open>n / (1 << l)\<close> then panics.
\<close>

function nodesUpto_loop :: "uint64 \<Rightarrow> uint64 \<Rightarrow> nat \<Rightarrow> error + uint64" where
  "nodesUpto_loop n o' l =
     (if n < push_bit l 1 then Inr o'
      else if (push_bit l 1 :: uint64) = 0 then Inl PanicDivideByZero
      else nodesUpto_loop n
             (let o1 = o' + push_bit l (drop_bit (l + 1) n)
              in if (n div push_bit l 1) mod 2 = 1 then o1 + n mod push_bit l 1 else o1)
             (l + 1))"
  by pat_completeness auto
termination
proof (relation "measure (\<lambda>(n, o', l). 64 - l)")
  show "wf (measure (\<lambda>(n, o', l). 64 - l))" by simp
next
  fix n o' :: uint64 and l :: nat
  assume "(push_bit l 1 :: uint64) \<noteq> 0"
  then have "l < 64"
    by (cases "l < 64") (simp_all add: push_bit_eq_mult)
  then show "((n, (let o1 = o' + push_bit l (drop_bit (l + 1) n)
              in if (n div push_bit l 1) mod 2 = 1 then o1 + n mod push_bit l 1 else o1), l + 1),
             (n, o', l)) \<in> measure (\<lambda>(n, o', l). 64 - l)"
    by simp
qed

declare nodesUpto_loop.simps [simp del]

definition nodesUpto :: "uint64 \<Rightarrow> error + uint64" where
  "nodesUpto n = nodesUpto_loop n n 0"

definition nodesUntil :: "uint64 \<Rightarrow> error + uint64" where
  "nodesUntil n = (if n = 1 then Inr 0 else nodesUpto (n - 1))"

function levelsAt_loop :: "uint64 \<Rightarrow> nat \<Rightarrow> nat" where
  "levelsAt_loop w l =
     (if w > 0 then levelsAt_loop (drop_bit 1 w) (if w mod 2 = 1 then l + 1 else l) else l)"
  by pat_completeness auto
termination
proof (relation "measure (\<lambda>(w, l). unat w)")
  show "wf (measure (\<lambda>(w, l). unat w))" by simp
next
  fix w :: uint64 and l :: nat
  assume "0 < w"
  then have "0 < unat w" by (simp add: word_greater_zero_iff unat_gt_0)
  then have "unat w div 2 < unat w" by simp
  then show "((drop_bit 1 w, if w mod 2 = 1 then l + 1 else l), (w, l)) \<in> measure (\<lambda>(w, l). unat w)"
    by (simp add: unat_drop_bit_eq drop_bit_eq_div unat_div)
qed

declare levelsAt_loop.simps [simp del]

definition levelsAt :: "uint64 \<Rightarrow> nat" where
  "levelsAt n = levelsAt_loop (n - 1) 0"

section \<open>Integer conversions of the source\<close>

text \<open>
  \<open>int64\<close> values are modelled as \<open>int\<close> with the wrap-around written out:
  \<open>int64 x\<close> is \<open>x\<close> reduced to the range of a signed 64-bit integer. Go's \<open>/\<close>
  and \<open>%\<close> truncate towards zero.
\<close>

definition int64 :: "int \<Rightarrow> int" where
  "int64 x = signed_take_bit 63 x"

definition go_div :: "int \<Rightarrow> int \<Rightarrow> int" where
  "go_div a b = sgn a * sgn b * (\<bar>a\<bar> div \<bar>b\<bar>)"


definition cLogEntrySize :: int where
  "cLogEntrySize = 12"

definition NodePrefix :: byte where
  "NodePrefix = 1"

text \<open>\<open>binary.BigEndian\<close>: \<open>PutUint32\<close>, \<open>PutUint64\<close>, \<open>Uint32\<close>, \<open>Uint64\<close>.
  The source only decodes from arrays of 12 bytes, so the short-list cases are never used.\<close>

definition PutUint32 :: "32 word \<Rightarrow> byte list" where
  "PutUint32 v = [ucast (drop_bit 24 v), ucast (drop_bit 16 v), ucast (drop_bit 8 v), ucast v]"

definition PutUint64 :: "uint64 \<Rightarrow> byte list" where
  "PutUint64 v = [ucast (drop_bit 56 v), ucast (drop_bit 48 v), ucast (drop_bit 40 v),
                  ucast (drop_bit 32 v), ucast (drop_bit 24 v), ucast (drop_bit 16 v),
                  ucast (drop_bit 8 v), ucast v]"

fun Uint32 :: "byte list \<Rightarrow> 32 word" where
  "Uint32 (b0 # b1 # b2 # b3 # bs) =
     ucast b3 OR push_bit 8 (ucast b2) OR push_bit 16 (ucast b1) OR push_bit 24 (ucast b0)"
| "Uint32 bs = 0"

fun Uint64 :: "byte list \<Rightarrow> uint64" where
  "Uint64 (b0 # b1 # b2 # b3 # b4 # b5 # b6 # b7 # bs) =
     ucast b7 OR push_bit 8 (ucast b6) OR push_bit 16 (ucast b5) OR push_bit 24 (ucast b4)
     OR push_bit 32 (ucast b3) OR push_bit 40 (ucast b2) OR push_bit 48 (ucast b1)
     OR push_bit 56 (ucast b0)"
| "Uint64 bs = 0"

text \<open>\<open>bits.Len64\<close>: the number of bits needed to represent \<open>x\<close>; 0 for \<open>x = 0\<close>.\<close>

function Len64 :: "uint64 \<Rightarrow> nat" where
  "Len64 x = (if x = 0 then 0 else 1 + Len64 (drop_bit 1 x))"
  by pat_completeness auto
termination
proof (relation "measure unat")
  show "wf (measure unat)" by simp
next
  fix x :: uint64
  assume "x \<noteq> 0"
  then have "0 < unat x" by (simp add: unat_gt_0)
  then have "unat x div 2 < unat x" by simp
  moreover have "unat (drop_bit 1 x) = unat x div 2"
    by (simp only: unat_drop_bit_eq) (simp add: drop_bit_eq_div)
  ultimately show "(drop_bit 1 x, x) \<in> measure unat" by simp
qed

declare Len64.simps [simp del]

section \<open>SHA-256\<close>

text \<open>
  \<open>sha256.Sum256\<close> of the Go standard library, written out from FIPS 180-4.
  The 32-bit words of the compression function are natural numbers below \<open>2^32\<close>,
  with the wrap-around of the additions written out.
\<close>

definition sha_k :: "nat list" where
  "sha_k = [
    1116352408, 1899447441, 3049323471, 3921009573, 961987163, 1508970993, 2453635748, 2870763221,
    3624381080, 310598401, 607225278, 1426881987, 1925078388, 2162078206, 2614888103, 3248222580,
    3835390401, 4022224774, 264347078, 604807628, 770255983, 1249150122, 1555081692, 1996064986,
    2554220882, 2821834349, 2952996808, 3210313671, 3336571891, 3584528711, 113926993, 338241895,
    666307205, 773529912, 1294757372, 1396182291, 1695183700, 1986661051, 2177026350, 2456956037,
    2730485921, 2820302411, 3259730800, 3345764771, 3516065817, 3600352804, 4094571909, 275423344,
    430227734, 506948616, 659060556, 883997877, 958139571, 1322822218, 1537002063, 1747873779,
    1955562222, 2024104815, 2227730452, 2361852424, 2428436474, 2756734187, 3204031479, 3329325298]"

definition sha_init :: "nat list" where
  "sha_init = [1779033703, 3144134277, 1013904242, 2773480762,
               1359893119, 2600822924, 528734635, 1541459225]"

definition add32 :: "nat \<Rightarrow> nat \<Rightarrow> nat" where
  "add32 a b = (a + b) mod 4294967296"

definition rotr :: "nat \<Rightarrow> nat \<Rightarrow> nat" where
  "rotr n x = x div 2 ^ n + (x mod 2 ^ n) * 2 ^ (32 - n)"

definition ssig0 :: "nat \<Rightarrow> nat" where
  "ssig0 x = rotr 7 x XOR rotr 18 x XOR x div 2 ^ 3"

definition ssig1 :: "nat \<Rightarrow> nat" where
  "ssig1 x = rotr 17 x XOR rotr 19 x XOR x div 2 ^ 10"

definition bsig0 :: "nat \<Rightarrow> nat" where
  "bsig0 x = rotr 2 x XOR rotr 13 x XOR rotr 22 x"

definition bsig1 :: "nat \<Rightarrow> nat" where
  "bsig1 x = rotr 6 x XOR rotr 11 x XOR rotr 25 x"

definition ch :: "nat \<Rightarrow> nat \<Rightarrow> nat \<Rightarrow> nat" where
  "ch x y z = (x AND y) XOR ((4294967295 - x) AND z)"

definition maj :: "nat \<Rightarrow> nat \<Rightarrow> nat \<Rightarrow> nat" where
  "maj x y z = (x AND y) XOR (x AND z) XOR (y AND z)"

fun be32 :: "byte list \<Rightarrow> nat list" where
  "be32 (a # b # c # d # r) =
     (unat a * 16777216 + unat b * 65536 + unat c * 256 + unat d) # be32 r"
| "be32 r = []"

text \<open>The message schedule, newest word first.\<close>

fun sched :: "nat \<Rightarrow> nat list \<Rightarrow> nat list" where
  "sched 0 ws = ws"
| "sched (Suc n) ws =
     sched n (add32 (add32 (add32 (ssig1 (ws ! 1)) (ws ! 6)) (ssig0 (ws ! 14))) (ws ! 15) # ws)"

definition sha_t1 :: "nat \<Rightarrow> nat \<Rightarrow> nat \<Rightarrow> nat \<Rightarrow> nat \<Rightarrow> nat \<Rightarrow> nat" where
  "sha_t1 e f g h k w = add32 (add32 (add32 (add32 h (bsig1 e)) (ch e f g)) k) w"

definition sha_t2 :: "nat \<Rightarrow> nat \<Rightarrow> nat \<Rightarrow> nat" where
  "sha_t2 a b c = add32 (bsig0 a) (maj a b c)"

fun sha_step :: "nat list \<Rightarrow> nat \<times> nat \<Rightarrow> nat list" where
  "sha_step [a, b, c, d, e, f, g, h] (k, w) =
     [add32 (sha_t1 e f g h k w) (sha_t2 a b c), a, b, c, add32 d (sha_t1 e f g h k w), e, f, g]"
| "sha_step s kw = s"

definition sha_rounds :: "nat list \<Rightarrow> nat list \<Rightarrow> nat list \<Rightarrow> nat list" where
  "sha_rounds ks ws s = foldl sha_step s (zip ks ws)"

definition compress :: "nat list \<Rightarrow> byte list \<Rightarrow> nat list" where
  "compress s blk = map2 add32 s (sha_rounds sha_k (rev (sched 48 (rev (be32 blk)))) s)"

function sha_blocks :: "nat list \<Rightarrow> byte list \<Rightarrow> nat list" where
  "sha_blocks s bs =
     (if length bs < 64 then s else sha_blocks (compress s (take 64 bs)) (drop 64 bs))"
  by pat_completeness auto
termination
  by (relation "measure (\<lambda>(s, bs). length bs)") auto

declare sha_blocks.simps [simp del]

definition be32_bytes :: "nat \<Rightarrow> byte list" where
  "be32_bytes x = [of_nat (x div 16777216), of_nat (x div 65536), of_nat (x div 256), of_nat x]"

definition be64_bytes :: "nat \<Rightarrow> byte list" where
  "be64_bytes x = be32_bytes (x div 4294967296) @ be32_bytes x"

definition sha_pad :: "byte list \<Rightarrow> byte list" where
  "sha_pad m = m @ [0x80] @ replicate ((119 - length m mod 64) mod 64) 0
               @ be64_bytes (8 * length m)"

definition sha256 :: "byte list \<Rightarrow> byte list" where
  "sha256 m = concat (map be32_bytes (sha_blocks sha_init (sha_pad m)))"

section \<open>The append-only logs\<close>

text \<open>
  Modelled from the spec: package \<open>appendable\<close> (the interface \<open>Appendable\<close> and its
  multi-file implementation) is not under src/. A log holds bytes and a write offset.
  \<open>SetOffset\<close> moves the write offset without truncating; \<open>Append\<close> writes at the
  offset, over what is there; \<open>ReadAt\<close> fills the buffer from the bytes held or stops
  short with \<open>ErrEOF\<close>. Offsets are \<open>int64\<close>, so a log never holds \<open>2^63\<close> bytes: an
  append that would get there fails. The fields \<open>size_err\<close> ... \<open>close_err\<close> stand for the
  I/O failures of the medium: when set, the operation returns that error.
  \<open>meta_file_size\<close> is the entry \<open>FILE_SIZE\<close> of the metadata, when present.
\<close>

record appendable =
  content :: "byte list"
  offset :: nat
  is_closed :: bool
  meta_file_size :: "int option"
  size_err :: "error option"
  append_err :: "error option"
  flush_err :: "error option"
  sync_err :: "error option"
  read_err :: "error option"
  close_err :: "error option"


definition app_SetOffset :: "int \<Rightarrow> appendable \<Rightarrow> appendable" where
  "app_SetOffset off lg = lg\<lparr>offset := nat off\<rparr>"

definition overwrite :: "nat \<Rightarrow> byte list \<Rightarrow> byte list \<Rightarrow> byte list" where
  "overwrite off bs c =
     take off (c @ replicate (off - length c) 0) @ bs @ drop (off + length bs) c"

definition app_Append :: "byte list \<Rightarrow> appendable \<Rightarrow> (error + int \<times> nat) \<times> appendable" where
  "app_Append bs lg =
     (case append_err lg of
        Some e \<Rightarrow> (Inl e, lg)
      | None \<Rightarrow>
          if 2 ^ 63 \<le> offset lg + length bs then (Inl ErrLogFull, lg)
          else (Inr (int (offset lg), length bs),
                lg\<lparr>content := overwrite (offset lg) bs (content lg),
                   offset := offset lg + length bs\<rparr>))"

definition app_Flush :: "appendable \<Rightarrow> error option" where
  "app_Flush lg = flush_err lg"

definition app_Sync :: "appendable \<Rightarrow> error option" where
  "app_Sync lg = sync_err lg"

text \<open>\<open>app_ReadAt n off lg\<close>: a read into a buffer of \<open>n\<close> bytes; the bytes read and the error.\<close>

definition app_ReadAt :: "nat \<Rightarrow> int \<Rightarrow> appendable \<Rightarrow> byte list \<times> error option" where
  "app_ReadAt n off lg =
     (case read_err lg of
        Some e \<Rightarrow> ([], Some e)
      | None \<Rightarrow>
          if off < 0 then ([], Some ErrIllegalArguments)
          else (let bs = take n (drop (nat off) (content lg))
                in (bs, if length bs < n then Some ErrEOF else None)))"

text \<open>The buffer after a read: zero-initialised, the bytes read in front.\<close>

definition buffer :: "nat \<Rightarrow> byte list \<Rightarrow> byte list" where
  "buffer n bs = take n bs @ replicate (n - length bs) 0"

definition app_Close :: "appendable \<Rightarrow> error option \<times> appendable" where
  "app_Close lg =
     (if is_closed lg then (Some ErrAlreadyClosed, lg)
      else (close_err lg, lg\<lparr>is_closed := True\<rparr>))"

section \<open>The tree\<close>

record ahtree =
  pLog :: appendable
  dLog :: appendable
  cLog :: appendable
  pLogSize :: int
  dLogSize :: int
  cLogSize :: int
  readOnly :: bool
  closed :: bool




text \<open>\<open>node\<close>: the result and the error of \<open>ReadAt\<close> are both dropped.\<close>

definition node :: "ahtree \<Rightarrow> uint64 \<Rightarrow> nat \<Rightarrow> error + byte list" where
  "node t n l =
     (case nodesUntil n of
        Inl e \<Rightarrow> Inl e
      | Inr u \<Rightarrow>
          (let hCount = u + of_nat l
           in Inr (buffer 32 (fst (app_ReadAt 32 (sint (hCount * 32)) (dLog t))))))"

text \<open>
  The loop of \<open>Append\<close>: \<open>h\<close> is the named result, overwritten at every odd \<open>w\<close>;
  \<open>digests\<close> is the filled part of the scratch array.
\<close>

function Append_loop ::
  "ahtree \<Rightarrow> uint64 \<Rightarrow> nat \<Rightarrow> uint64 \<Rightarrow> byte list \<Rightarrow> byte list list
   \<Rightarrow> error + byte list \<times> byte list list" where
  "Append_loop t w l k h digests =
     (if w > 0 then
        (if w mod 2 = 1 then
           (case node t k l of
              Inl e \<Rightarrow> Inl e
            | Inr hkl \<Rightarrow>
                (let h' = sha256 (NodePrefix # hkl @ h)
                 in Append_loop t (drop_bit 1 w) (l + 1) (k AND NOT (push_bit l 1)) h'
                      (digests @ [h'])))
         else Append_loop t (drop_bit 1 w) (l + 1) (k AND NOT (push_bit l 1)) h digests)
      else Inr (h, digests))"
  by pat_completeness auto
termination
proof (relation "measure (\<lambda>(t, w, l, k, h, digests). unat w)")
  show "wf (measure (\<lambda>(t, w, l, k, h, digests). unat w))" by simp
next
  fix t :: ahtree and w :: uint64 and l :: nat and k :: uint64
    and h :: "byte list" and digests :: "byte list list" and hkl h' :: "byte list"
  assume "0 < w"
  then have "0 < unat w" by (simp add: word_greater_zero_iff unat_gt_0)
  then have "unat w div 2 < unat w" by simp
  moreover have "unat (drop_bit 1 w) = unat w div 2"
    by (simp only: unat_drop_bit_eq) (simp add: drop_bit_eq_div)
  ultimately show "((t, drop_bit 1 w, l + 1, k AND NOT (push_bit l 1), h', digests @ [h']),
                    (t, w, l, k, h, digests))
                   \<in> measure (\<lambda>(t, w, l, k, h, digests). unat w)"
    by simp
next
  fix t :: ahtree and w :: uint64 and l :: nat and k :: uint64
    and h :: "byte list" and digests :: "byte list list"
  assume "0 < w"
  then have "0 < unat w" by (simp add: word_greater_zero_iff unat_gt_0)
  then have "unat w div 2 < unat w" by simp
  moreover have "unat (drop_bit 1 w) = unat w div 2"
    by (simp only: unat_drop_bit_eq) (simp add: drop_bit_eq_div)
  ultimately show "((t, drop_bit 1 w, l + 1, k AND NOT (push_bit l 1), h, digests),
                    (t, w, l, k, h, digests))
                   \<in> measure (\<lambda>(t, w, l, k, h, digests). unat w)"
    by simp
qed

declare Append_loop.simps [simp del]

text \<open>
  \<open>Append\<close> returns the error or the pair \<open>(n, h)\<close>, and the tree as it is left.
  A failed step leaves the in-memory sizes as they were.
\<close>

definition Append :: "byte list \<Rightarrow> ahtree \<Rightarrow> (error + uint64 \<times> byte list) \<times> ahtree" where
  "Append d t =
     (if closed t then (Inl ErrAlreadyClosed, t)
      else if readOnly t then (Inl ErrReadOnly, t)
      else
        (let p1 = app_SetOffset (pLogSize t) (pLog t);
             dLenBs = PutUint32 (of_nat (length d))
         in case app_Append dLenBs p1 of
           (Inl perr, p2) \<Rightarrow> (Inl perr, t\<lparr>pLog := p2\<rparr>)
         | (Inr (poff, _), p2) \<Rightarrow>
        (case (if length d > 0 then app_Append d p2 else (Inr (0, 0), p2)) of
           (Inl err, p3) \<Rightarrow> (Inl err, t\<lparr>pLog := p3\<rparr>)
         | (Inr _, p3) \<Rightarrow>
        (let t1 = t\<lparr>pLog := p3\<rparr>;
             n = word_of_int (go_div (cLogSize t) cLogEntrySize) + 1;
             h0 = sha256 d
         in case Append_loop t1 (n - 1) 0 (n - 1) h0 [h0] of
           Inl e \<Rightarrow> (Inl e, t1)
         | Inr (h, digests) \<Rightarrow>
        (case app_Flush p3 of
           Some err \<Rightarrow> (Inl err, t1)
         | None \<Rightarrow>
        (let d1 = app_SetOffset (dLogSize t) (dLog t)
         in case app_Append (concat digests) d1 of
           (Inl err, d2) \<Rightarrow> (Inl err, t1\<lparr>dLog := d2\<rparr>)
         | (Inr _, d2) \<Rightarrow>
        (case app_Flush d2 of
           Some err \<Rightarrow> (Inl err, t1\<lparr>dLog := d2\<rparr>)
         | None \<Rightarrow>
        (let cLogEntry = PutUint64 (word_of_int poff) @ PutUint32 (of_nat (length d))
         in case app_Append cLogEntry (cLog t) of
           (Inl err, c2) \<Rightarrow> (Inl err, t1\<lparr>dLog := d2, cLog := c2\<rparr>)
         | (Inr _, c2) \<Rightarrow>
        (case app_Flush c2 of
           Some err \<Rightarrow> (Inl err, t1\<lparr>dLog := d2, cLog := c2\<rparr>)
         | None \<Rightarrow>
           (Inr (n, h),
            t1\<lparr>dLog := d2, cLog := c2,
               pLogSize := int64 (pLogSize t + int64 (4 + int (length d))),
               dLogSize := int64 (dLogSize t + int64 (int (length digests) * 32)),
               cLogSize := int64 (cLogSize t + cLogEntrySize)\<rparr>))))))))))"

text \<open>\<open>highestNode\<close>: \<open>l\<close> counts the set bits of \<open>i - 1\<close> below position \<open>d\<close>.\<close>

fun highestNode_loop :: "uint64 \<Rightarrow> nat \<Rightarrow> nat \<Rightarrow> nat" where
  "highestNode_loop i 0 l = l"
| "highestNode_loop i (Suc r) l =
     highestNode_loop i r (if (i - 1) AND push_bit r 1 > 0 then l + 1 else l)"

definition highestNode :: "ahtree \<Rightarrow> uint64 \<Rightarrow> nat \<Rightarrow> error + byte list" where
  "highestNode t i d = node t i (highestNode_loop i d 0)"

text \<open>
  \<open>inclusionProof\<close>: the loop variable \<open>h\<close> runs from \<open>height - 1\<close> down to 0;
  \<open>inclusionProof_loop t i j (Suc h) proof\<close> is the loop about to run its body at \<open>h\<close>.
\<close>

fun inclusionProof_loop ::
  "ahtree \<Rightarrow> uint64 \<Rightarrow> uint64 \<Rightarrow> nat \<Rightarrow> byte list list \<Rightarrow> error + byte list list" where
  "inclusionProof_loop t i j 0 proof = Inr proof"
| "inclusionProof_loop t i j (Suc h) proof =
     (if (j - 1) AND push_bit h 1 > 0 then
        (let k = push_bit h (drop_bit h (j - 1))
         in if i \<le> k then
              (case highestNode t j h of
                 Inl e \<Rightarrow> Inl e
               | Inr hn \<Rightarrow>
                   (case inclusionProof_loop t i k h [] of
                      Inl err \<Rightarrow> Inl err
                    | Inr p \<Rightarrow> Inr (p @ hn # proof)))
            else
              (case node t k h of
                 Inl e \<Rightarrow> Inl e
               | Inr nd \<Rightarrow> inclusionProof_loop t i j h (nd # proof)))
      else inclusionProof_loop t i j h proof)"

definition inclusionProof :: "ahtree \<Rightarrow> uint64 \<Rightarrow> uint64 \<Rightarrow> nat \<Rightarrow> error + byte list list" where
  "inclusionProof t i j height = inclusionProof_loop t i j height []"

definition Size :: "ahtree \<Rightarrow> error + uint64" where
  "Size t = Inr (word_of_int (go_div (cLogSize t) cLogEntrySize))"

definition InclusionProof :: "uint64 \<Rightarrow> uint64 \<Rightarrow> ahtree \<Rightarrow> error + byte list list" where
  "InclusionProof i j t =
     (if closed t then Inl ErrAlreadyClosed
      else if i > j then Inl ErrIllegalArguments
      else if j > word_of_int (go_div (cLogSize t) cLogEntrySize) then Inl ErrUnexistentData
      else inclusionProof t i j (Len64 (j - 1)))"

fun consistencyProof_loop ::
  "ahtree \<Rightarrow> uint64 \<Rightarrow> uint64 \<Rightarrow> nat \<Rightarrow> byte list list \<Rightarrow> error + byte list list" where
  "consistencyProof_loop t i j 0 proof = Inr proof"
| "consistencyProof_loop t i j (Suc h) proof =
     (if (j - 1) AND push_bit h 1 > 0 then
        (let k = push_bit h (drop_bit h (j - 1))
         in if i \<le> k then
              (case highestNode t j h of
                 Inl e \<Rightarrow> Inl e
               | Inr hn \<Rightarrow>
                   (case (if i < k then consistencyProof_loop t i k h []
                          else Inr []) of
                      Inl err \<Rightarrow> Inl err
                    | Inr p \<Rightarrow>
                        (if i = k then
                           (case highestNode t i h of
                              Inl e \<Rightarrow> Inl e
                            | Inr hi \<Rightarrow> Inr (hi # p @ hn # proof))
                         else Inr (p @ hn # proof))))
            else
              (case node t k h of
                 Inl e \<Rightarrow> Inl e
               | Inr nd \<Rightarrow>
                   (if i = j then
                      (case highestNode t i h of
                         Inl e \<Rightarrow> Inl e
                       | Inr hi \<Rightarrow> Inr (hi # nd # proof))
                    else consistencyProof_loop t i j h (nd # proof))))
      else consistencyProof_loop t i j h proof)"

definition consistencyProof :: "ahtree \<Rightarrow> uint64 \<Rightarrow> uint64 \<Rightarrow> nat \<Rightarrow> error + byte list list" where
  "consistencyProof t i j height = consistencyProof_loop t i j height []"

definition ConsistencyProof :: "uint64 \<Rightarrow> uint64 \<Rightarrow> ahtree \<Rightarrow> error + byte list list" where
  "ConsistencyProof i j t =
     (if closed t then Inl ErrAlreadyClosed
      else if i > j then Inl ErrIllegalArguments
      else if j > word_of_int (go_div (cLogSize t) cLogEntrySize) then Inl ErrUnexistentData
      else consistencyProof t i j (Len64 (j - 1)))"

definition DataAt :: "uint64 \<Rightarrow> ahtree \<Rightarrow> error + byte list" where
  "DataAt n t =
     (if closed t then Inl ErrAlreadyClosed
      else if n < 1 then Inl ErrIllegalArguments
      else if n > word_of_int (go_div (cLogSize t) cLogEntrySize) then Inl ErrUnexistentData
      else case app_ReadAt 12 (sint ((n - 1) * 12)) (cLog t) of
        (bs, Some err) \<Rightarrow> Inl err
      | (bs, None) \<Rightarrow>
          (let b = buffer 12 bs;
               pOff = Uint64 b;
               pSize = Uint32 (drop 8 b)
           in case app_ReadAt (unat pSize) (sint (pOff + 4)) (pLog t) of
             (ps, Some err) \<Rightarrow> Inl err
           | (ps, None) \<Rightarrow> Inr (buffer (unat pSize) ps)))"

definition RootAt :: "uint64 \<Rightarrow> ahtree \<Rightarrow> error + byte list" where
  "RootAt n t =
     (if closed t then Inl ErrAlreadyClosed
      else if cLogSize t = 0 then Inl ErrEmptyTree
      else if n > word_of_int (go_div (cLogSize t) cLogEntrySize) then Inl ErrUnexistentData
      else case nodesUntil n of
        Inl e \<Rightarrow> Inl e
      | Inr u \<Rightarrow>
          (let hCount = u + of_nat (levelsAt n)
           in case app_ReadAt 32 (sint (hCount * 32)) (dLog t) of
             (bs, Some err) \<Rightarrow> Inl err
           | (bs, None) \<Rightarrow> Inr (buffer 32 bs)))"

definition Root :: "ahtree \<Rightarrow> error + byte list" where
  "Root t = RootAt (word_of_int (go_div (cLogSize t) cLogEntrySize)) t"

definition Sync :: "ahtree \<Rightarrow> error option" where
  "Sync t =
     (if closed t then Some ErrAlreadyClosed
      else if readOnly t then Some ErrReadOnly
      else if cLogSize t = 0 then None
      else case app_Sync (pLog t) of
        Some err \<Rightarrow> Some err
      | None \<Rightarrow>
          (case app_Sync (dLog t) of
             Some err \<Rightarrow> Some err
           | None \<Rightarrow> app_Sync (cLog t)))"

text \<open>\<open>Close\<close>: the three logs are closed in turn and every error is collected.\<close>

definition Close :: "ahtree \<Rightarrow> error option \<times> ahtree" where
  "Close t =
     (if closed t then (Some ErrAlreadyClosed, t)
      else
        (let (pErr, p') = app_Close (pLog t);
             errors = (case pErr of Some e \<Rightarrow> [e] | None \<Rightarrow> []);
             (dErr, d') = app_Close (dLog t);
             errors = (case dErr of Some e \<Rightarrow> errors @ [e] | None \<Rightarrow> errors);
             (cErr, c') = app_Close (cLog t);
             errors = (case cErr of Some e \<Rightarrow> errors @ [e] | None \<Rightarrow> errors);
             t' = t\<lparr>closed := True, pLog := p', dLog := d', cLog := c'\<rparr>
         in if length errors > 0 then (Some (MultiErr errors), t') else (None, t')))"


section \<open>Reference functions for the geometry\<close>

text \<open>
  \<open>pc\<close> is the population count, \<open>cnt l n\<close> the number of \<open>m < n\<close> whose bit \<open>l\<close>
  is set (the summand of the closed form of \<open>nodesUpto\<close>), and \<open>nun n\<close> the number of
  digests written by the first \<open>n\<close> appends: append \<open>n + 1\<close> writes one leaf digest and
  one digest per set bit of \<open>n\<close>.
\<close>

fun pc :: "nat \<Rightarrow> nat" where
  "pc n = (if n = 0 then 0 else n mod 2 + pc (n div 2))"

declare pc.simps [simp del]

definition cnt :: "nat \<Rightarrow> nat \<Rightarrow> nat" where
  "cnt l n = n div 2 ^ (l + 1) * 2 ^ l + (if odd (n div 2 ^ l) then n mod 2 ^ l else 0)"

fun nun :: "nat \<Rightarrow> nat" where
  "nun 0 = 0"
| "nun (Suc n) = nun n + 1 + pc n"

text \<open>The identity of the geometry, as a test on one \<open>n\<close>.\<close>

definition geometry_identity :: "uint64 \<Rightarrow> bool" where
  "geometry_identity n =
     (case nodesUpto n of
        Inl e \<Rightarrow> False
      | Inr v \<Rightarrow> (case nodesUntil n of
                   Inl e \<Rightarrow> False
                 | Inr u \<Rightarrow> v = u + of_nat (levelsAt n) + 1))"

text \<open>The bit length of a natural number.\<close>

fun blen :: "nat \<Rightarrow> nat" where
  "blen n = (if n = 0 then 0 else Suc (blen (n div 2)))"

declare blen.simps [simp del]

section \<open>Concrete inputs\<close>

text \<open>
  A freshly created log: no bytes, writable at 0, with the metadata entry \<open>FILE_SIZE\<close>
  and a medium that does not fail; default options; and the tree that \<open>OpenWith\<close> makes of
  three fresh logs.
\<close>

definition fresh_log :: appendable where
  "fresh_log = \<lparr>content = [], offset = 0, is_closed = False, meta_file_size = Some 4096,
                 size_err = None, append_err = None, flush_err = None, sync_err = None,
                 read_err = None, close_err = None\<rparr>"


definition fresh_tree :: ahtree where
  "fresh_tree = \<lparr>pLog = fresh_log, dLog = fresh_log, cLog = fresh_log, pLogSize = 0,
                  dLogSize = 0, cLogSize = 0, readOnly = False, closed = False\<rparr>"

text \<open>The errors that closing the three logs returns, in the order P, D, C.\<close>

definition close_errors :: "ahtree \<Rightarrow> error list" where
  "close_errors t =
     List.map_filter id
       [fst (app_Close (pLog t)), fst (app_Close (dLog t)), fst (app_Close (cLog t))]"

text \<open>The buffer of \<open>node\<close> when nothing was read into it.\<close>

definition zero_digest :: "byte list" where
  "zero_digest = replicate 32 0"

text \<open>A tree of two leaves whose hash log cannot be read.\<close>

definition unreadable_tree :: ahtree where
  "unreadable_tree = fresh_tree\<lparr>dLog := fresh_log\<lparr>read_err := Some (ErrLog ''io'')\<rparr>,
                                 cLogSize := 24\<rparr>"

section \<open>The Merkle tree of RFC 6962, as the spec describes it\<close>

text \<open>
  \<open>node_hash\<close> is the digest of an internal node, \<open>SHA-256(0x01 || left || right)\<close>.
  \<open>lp2 n\<close> is the largest power of two below \<open>n\<close>. \<open>mth ds\<close> is the root over the leaf
  digests \<open>ds\<close>: the left child covers the first \<open>lp2 (length ds)\<close> leaves, the right child
  the rest. \<open>path ds m\<close> is the audit path of leaf \<open>m\<close> (from 0), the sibling next to the
  leaf first and the sibling below the root last.
\<close>

definition node_hash :: "byte list \<Rightarrow> byte list \<Rightarrow> byte list" where
  "node_hash l r = sha256 (NodePrefix # l @ r)"

definition lp2 :: "nat \<Rightarrow> nat" where
  "lp2 n = 2 ^ (blen (n - 1) - 1)"

function mth :: "byte list list \<Rightarrow> byte list" where
  "mth ds =
     (if length ds \<le> 1 then (case ds of [] \<Rightarrow> sha256 [] | d # r \<Rightarrow> d)
      else node_hash (mth (take (lp2 (length ds)) ds)) (mth (drop (lp2 (length ds)) ds)))"
  by pat_completeness auto
termination
proof (relation "measure length")
  show "wf (measure length)" by simp
next
  have low: "2 ^ (blen m - 1) \<le> m" if "0 < m" for m
    using that
  proof (induction m rule: less_induct)
    case (less m)
    show ?case
    proof (cases "m div 2 = 0")
      case True
      then have "blen m = 1" using less.prems by (simp add: blen.simps[of m] blen.simps[of 0])
      then show ?thesis using less.prems by simp
    next
      case False
      then have p: "0 < m div 2" by simp
      have "m div 2 < m" using less.prems by simp
      then have ih: "2 ^ (blen (m div 2) - 1) \<le> m div 2" using less.IH p by blast
      have b0: "0 < blen (m div 2)" using p by (simp add: blen.simps[of "m div 2"])
      have "blen m = Suc (blen (m div 2))" using less.prems by (simp add: blen.simps[of m])
      then have "(2::nat) ^ (blen m - 1) = 2 * 2 ^ (blen (m div 2) - 1)"
        using b0 by (cases "blen (m div 2)") simp_all
      then show ?thesis using ih by simp
    qed
  qed
  have b: "0 < lp2 n \<and> lp2 n < n" if "\<not> n \<le> 1" for n
  proof -
    have "0 < n - 1" using that by simp
    then have "2 ^ (blen (n - 1) - 1) \<le> n - 1" by (rule low)
    then show ?thesis using that by (simp add: lp2_def)
  qed
  fix ds :: "byte list list"
  assume a: "\<not> length ds \<le> 1"
  show "(take (lp2 (length ds)) ds, ds) \<in> measure length" using b[OF a] by simp
  show "(drop (lp2 (length ds)) ds, ds) \<in> measure length" using b[OF a] by auto
qed

declare mth.simps [simp del]

function path :: "byte list list \<Rightarrow> nat \<Rightarrow> byte list list" where
  "path ds m =
     (if length ds \<le> 1 then []
      else if m < lp2 (length ds)
           then path (take (lp2 (length ds)) ds) m @ [mth (drop (lp2 (length ds)) ds)]
           else path (drop (lp2 (length ds)) ds) (m - lp2 (length ds))
                @ [mth (take (lp2 (length ds)) ds)])"
  by pat_completeness auto
termination
proof (relation "measure (\<lambda>(ds, m). length ds)")
  show "wf (measure (\<lambda>(ds, m). length ds))" by simp
next
  have low: "2 ^ (blen m - 1) \<le> m" if "0 < m" for m
    using that
  proof (induction m rule: less_induct)
    case (less m)
    show ?case
    proof (cases "m div 2 = 0")
      case True
      then have "blen m = 1" using less.prems by (simp add: blen.simps[of m] blen.simps[of 0])
      then show ?thesis using less.prems by simp
    next
      case False
      then have p: "0 < m div 2" by simp
      have "m div 2 < m" using less.prems by simp
      then have ih: "2 ^ (blen (m div 2) - 1) \<le> m div 2" using less.IH p by blast
      have b0: "0 < blen (m div 2)" using p by (simp add: blen.simps[of "m div 2"])
      have "blen m = Suc (blen (m div 2))" using less.prems by (simp add: blen.simps[of m])
      then have "(2::nat) ^ (blen m - 1) = 2 * 2 ^ (blen (m div 2) - 1)"
        using b0 by (cases "blen (m div 2)") simp_all
      then show ?thesis using ih by simp
    qed
  qed
  have b: "0 < lp2 n \<and> lp2 n < n" if "\<not> n \<le> 1" for n
  proof -
    have "0 < n - 1" using that by simp
    then have "2 ^ (blen (n - 1) - 1) \<le> n - 1" by (rule low)
    then show ?thesis using that by (simp add: lp2_def)
  qed
  fix ds :: "byte list list" and m :: nat
  assume a: "\<not> length ds \<le> 1"
  show "((take (lp2 (length ds)) ds, m), (ds, m)) \<in> measure (\<lambda>(ds, m). length ds)"
    using b[OF a] by simp
  show "((drop (lp2 (length ds)) ds, m - lp2 (length ds)), (ds, m))
        \<in> measure (\<lambda>(ds, m). length ds)"
    using b[OF a] by auto
qed

declare path.simps [simp del]


text \<open>
  The layout of the hash log. \<open>slice a b xs\<close> is \<open>xs[a:b]\<close>. \<open>rec_at ds m l\<close> is the
  root over the leaves from the last multiple of \<open>2^l\<close> below \<open>m\<close> up to leaf \<open>m\<close>.
  \<open>recs ds m\<close> are the digests written by append \<open>m\<close>, and \<open>dflat ds n\<close> the digests
  written by the first \<open>n\<close> appends.
\<close>

definition slice :: "nat \<Rightarrow> nat \<Rightarrow> 'a list \<Rightarrow> 'a list" where
  "slice a b xs = take (b - a) (drop a xs)"

definition rec_at :: "byte list list \<Rightarrow> nat \<Rightarrow> nat \<Rightarrow> byte list" where
  "rec_at ds m l = mth (slice ((m - 1) div 2 ^ l * 2 ^ l) m ds)"

definition recs :: "byte list list \<Rightarrow> nat \<Rightarrow> byte list list" where
  "recs ds m = rec_at ds m 0 # map (\<lambda>b. rec_at ds m (Suc b)) (filter (bit (m - 1)) [0..<64])"

definition dflat :: "byte list list \<Rightarrow> nat \<Rightarrow> byte list list" where
  "dflat ds n = concat (map (recs ds) [1..<Suc n])"


section \<open>The tree after a run of appends\<close>

text \<open>
  \<open>pdata ps\<close> are the bytes of the payload log after the payloads \<open>ps\<close> were appended,
  \<open>centries 0 ps\<close> the bytes of the commit log, and \<open>tree_of ro p0 d0 c0 ps\<close> the tree
  over the logs \<open>p0\<close>, \<open>d0\<close>, \<open>c0\<close> (empty when the tree was opened) after the appends.
  \<open>within_bounds ps\<close> says that the three logs stay below \<open>2^63\<close> bytes.
\<close>

definition precord :: "byte list \<Rightarrow> byte list" where
  "precord p = PutUint32 (of_nat (length p)) @ p"

definition pdata :: "byte list list \<Rightarrow> byte list" where
  "pdata ps = concat (map precord ps)"

fun centries :: "nat \<Rightarrow> byte list list \<Rightarrow> byte list" where
  "centries off [] = []"
| "centries off (p # ps) =
     PutUint64 (of_nat off) @ PutUint32 (of_nat (length p)) @ centries (off + 4 + length p) ps"

definition tree_of ::
  "bool \<Rightarrow> appendable \<Rightarrow> appendable \<Rightarrow> appendable \<Rightarrow> byte list list \<Rightarrow> ahtree" where
  "tree_of ro p0 d0 c0 ps =
     \<lparr>pLog = p0\<lparr>content := pdata ps, offset := length (pdata ps)\<rparr>,
      dLog = d0\<lparr>content := concat (dflat (map sha256 ps) (length ps)),
                offset := 32 * nun (length ps)\<rparr>,
      cLog = c0\<lparr>content := centries 0 ps, offset := 12 * length ps\<rparr>,
      pLogSize = int (length (pdata ps)),
      dLogSize = int (32 * nun (length ps)),
      cLogSize = int (12 * length ps),
      readOnly = ro, closed = False\<rparr>"










text \<open>The trees after the payloads \<open>[1]\<close>, and \<open>[1]\<close> then \<open>[2]\<close>, were appended to fresh logs.\<close>

definition tree1 :: ahtree where
  "tree1 = tree_of False fresh_log fresh_log fresh_log [[1]]"

definition tree2 :: ahtree where
  "tree2 = tree_of False fresh_log fresh_log fresh_log [[1], [2]]"
section \<open>Geometry: the closed form counts the digests\<close>

lemma div_mod_decomp: "r < b \<Longrightarrow> (q * b + r) div b = q \<and> (q * b + r) mod b = (r::nat)"
  by simp

lemma cnt_small: "n < 2 ^ l \<Longrightarrow> cnt l n = 0"
  by (simp add: cnt_def)

lemma cnt_Suc: "cnt l (Suc n) = cnt l n + n div 2 ^ l mod 2"
proof -
  define q where "q = n div 2 ^ l"
  define r where "r = n mod 2 ^ l"
  have n: "n = q * 2 ^ l + r" unfolding q_def r_def by (rule div_mult_mod_eq[symmetric])
  have r: "r < 2 ^ l" by (simp add: r_def)
  have dm: "x div 2 ^ (l + 1) = x div 2 ^ l div 2" for x :: nat
    using div_mult2_eq[of x "2 ^ l" 2] by (simp add: mult.commute)
  have half: "n div 2 ^ (l + 1) = q div 2"
    by (simp only: dm q_def)
  show ?thesis
  proof (cases "Suc r < 2 ^ l")
    case True
    have e: "Suc n = q * 2 ^ l + Suc r" using n by simp
    have q': "Suc n div 2 ^ l = q"
      unfolding e by (rule conjunct1[OF div_mod_decomp[OF True]])
    have r': "Suc n mod 2 ^ l = Suc r"
      unfolding e by (rule conjunct2[OF div_mod_decomp[OF True]])
    have "Suc n div 2 ^ (l + 1) = q div 2"
      using q' by (simp only: dm)
    then show ?thesis
      using q' r' half by (simp add: cnt_def q_def[symmetric] r_def[symmetric] odd_iff_mod_2_eq_one)
  next
    case False
    then have rr: "Suc r = 2 ^ l" using r by simp
    have "Suc n = (q + 1) * 2 ^ l" using n rr by (simp add: algebra_simps)
    then have q': "Suc n div 2 ^ l = q + 1" and r': "Suc n mod 2 ^ l = 0"
      by simp_all
    have h': "Suc n div 2 ^ (l + 1) = (q + 1) div 2"
      using q' by (simp only: dm)
    show ?thesis
    proof (cases "odd q")
      case True
      then have "(q + 1) div 2 = q div 2 + 1" by presburger
      then show ?thesis
        using True q' r' half h' rr
        by (simp add: cnt_def q_def[symmetric] r_def[symmetric] algebra_simps odd_iff_mod_2_eq_one)
    next
      case False
      then have "(q + 1) div 2 = q div 2" by presburger
      then show ?thesis
        using False q' r' half h'
        by (simp add: cnt_def q_def[symmetric] r_def[symmetric] even_iff_mod_2_eq_zero)
    qed
  qed
qed

lemma sum_bits_pc: "n < 2 ^ m \<Longrightarrow> (\<Sum>k<m. n div 2 ^ k mod 2) = pc n"
proof (induction m arbitrary: n)
  case 0
  then show ?case by (simp add: pc.simps)
next
  case (Suc m)
  have "n div 2 < 2 ^ m" using Suc.prems by simp
  then have IH: "(\<Sum>k<m. n div 2 div 2 ^ k mod 2) = pc (n div 2)"
    by (rule Suc.IH)
  have "(\<Sum>k<Suc m. n div 2 ^ k mod 2)
        = n mod 2 + (\<Sum>k<m. n div 2 ^ Suc k mod 2)"
    using sum.lessThan_Suc_shift[of "\<lambda>k. n div 2 ^ k mod 2" m] by simp
  also have "\<dots> = n mod 2 + pc (n div 2)"
    using IH by (simp add: div_mult2_eq)
  also have "\<dots> = pc n"
    by (cases "n = 0") (simp_all add: pc.simps[of n] pc.simps[of 0])
  finally show ?case .
qed

lemma nun_sum: "n < 2 ^ m \<Longrightarrow> n + (\<Sum>k<m. cnt k n) = nun n"
proof (induction n)
  case 0
  then show ?case by (simp add: cnt_def)
next
  case (Suc n)
  then have IH: "n + (\<Sum>k<m. cnt k n) = nun n" and lt: "n < 2 ^ m" by simp_all
  have "(\<Sum>k<m. cnt k (Suc n)) = (\<Sum>k<m. cnt k n) + (\<Sum>k<m. n div 2 ^ k mod 2)"
    by (simp add: cnt_Suc sum.distrib)
  then show ?case using IH sum_bits_pc[OF lt] by simp
qed

lemma unat_2p: "l < 64 \<Longrightarrow> unat (2 ^ l :: uint64) = 2 ^ l"
proof -
  assume l: "l < 64"
  have "(2::nat) ^ l < 2 ^ 64" using l by (intro power_strict_increasing) simp_all
  moreover have "unat (2 ^ l :: uint64) = unat (of_nat (2 ^ l) :: uint64)" by simp
  ultimately show ?thesis by (simp only: unat_of_nat len_bit0 len_num1 One_nat_def) simp
qed

lemma unat_one_shift: "l < 64 \<Longrightarrow> unat (push_bit l 1 :: uint64) = 2 ^ l"
  by (simp add: unat_2p)

lemma cnt_le: "cnt l n \<le> n"
proof -
  have "n div (2 ^ l * 2) * 2 ^ l \<le> n div 2 ^ l div 2 * 2 ^ l"
    by (simp add: div_mult2_eq)
  have a: "n = n div 2 ^ l * 2 ^ l + n mod 2 ^ l" by (rule div_mult_mod_eq[symmetric])
  have b: "n div 2 ^ (l + 1) = n div 2 ^ l div 2"
    using div_mult2_eq[of n "2 ^ l" 2] by (simp add: mult.commute)
  have "n div 2 ^ l div 2 * 2 ^ l \<le> n div 2 ^ l * 2 ^ l"
    by (rule mult_le_mono1) simp
  then have "n div 2 ^ (l + 1) * 2 ^ l + n mod 2 ^ l \<le> n div 2 ^ l * 2 ^ l + n mod 2 ^ l"
    unfolding b by simp
  then have "n div 2 ^ (l + 1) * 2 ^ l + n mod 2 ^ l \<le> n"
    using a by simp
  then show ?thesis by (simp add: cnt_def)
qed

lemma word_cnt:
  fixes n :: uint64
  assumes l: "l < 64"
  shows "push_bit l (drop_bit (l + 1) n)
           + (if (n div push_bit l 1) mod 2 = 1 then n mod push_bit l 1 else 0)
         = of_nat (cnt l (unat n))"
proof -
  have s: "unat (2 ^ l :: uint64) = 2 ^ l" using l by (rule unat_2p)
  have c1: "((n div push_bit l 1) mod 2 = 1) = odd (unat n div 2 ^ l)"
  proof -
    have "((n div push_bit l 1) mod 2 = 1) = (unat ((n div push_bit l 1) mod 2) = unat (1::uint64))"
      by (simp only: word_unat_eq_iff)
    also have "\<dots> = (unat n div 2 ^ l mod 2 = 1)"
      by (simp add: unat_mod unat_div s)
    finally show ?thesis by (simp add: odd_iff_mod_2_eq_one)
  qed
  have c2: "n mod push_bit l 1 = of_nat (unat n mod 2 ^ l)"
  proof -
    have "unat (n mod push_bit l 1) = unat n mod 2 ^ l" by (simp add: unat_mod s)
    then have "of_nat (unat (n mod push_bit l 1)) = (of_nat (unat n mod 2 ^ l) :: uint64)" by simp
    then show ?thesis by simp
  qed
  have c3: "push_bit l (drop_bit (l + 1) n) = (of_nat (unat n div 2 ^ (l + 1) * 2 ^ l) :: uint64)"
  proof -
    have "unat (drop_bit (l + 1) n) = unat n div 2 ^ (l + 1)"
      by (simp only: unat_drop_bit_eq) (simp add: drop_bit_eq_div)
    then have "of_nat (unat (drop_bit (l + 1) n)) = (of_nat (unat n div 2 ^ (l + 1)) :: uint64)"
      by simp
    then have "drop_bit (l + 1) n = (of_nat (unat n div 2 ^ (l + 1)) :: uint64)"
      by simp
    then show ?thesis by (simp add: push_bit_eq_mult)
  qed
  show ?thesis
    unfolding c1 c2 c3 by (simp add: cnt_def)
qed

lemma nodesUpto_loop_nat:
  "unat n < 2 ^ 63 \<Longrightarrow> l \<le> 63 \<Longrightarrow>
   nodesUpto_loop n a l = Inr (a + of_nat (\<Sum>k = l..<63. cnt k (unat n)))"
proof (induction "63 - l" arbitrary: l a)
  case 0
  then have l: "l = 63" by simp
  have "n < 2 ^ 63" using 0 l by (simp add: word_less_nat_alt)
  then show ?case using l by (simp add: nodesUpto_loop.simps[of n a 63])
next
  case (Suc d)
  then have l: "l < 63" by simp
  then have l64: "l < 64" by simp
  show ?case
  proof (cases "n < push_bit l 1")
    case True
    then have "unat n < 2 ^ l" using l64 by (simp add: word_less_nat_alt unat_2p)
    then have "\<And>k. l \<le> k \<Longrightarrow> cnt k (unat n) = 0"
      by (meson cnt_small le_less_trans less_le_trans one_le_numeral power_increasing not_le)
    then have "(\<Sum>k = l..<63. cnt k (unat n)) = 0" by simp
    then show ?thesis using True by (simp add: nodesUpto_loop.simps[of n a l])
  next
    case False
    have nz: "(2 ^ l :: uint64) \<noteq> 0"
      using l64 by (simp add: exp_eq_zero_iff)
    have step: "(let o1 = a + push_bit l (drop_bit (l + 1) n)
              in if (n div push_bit l 1) mod 2 = 1 then o1 + n mod push_bit l 1 else o1)
             = a + of_nat (cnt l (unat n))"
      using word_cnt[OF l64, of n] by (simp add: Let_def add.assoc split: if_splits)
    have IH: "nodesUpto_loop n (a + of_nat (cnt l (unat n))) (l + 1)
              = Inr (a + of_nat (cnt l (unat n)) + of_nat (\<Sum>k = l + 1..<63. cnt k (unat n)))"
      using Suc.hyps(1)[of "l + 1"] Suc.hyps(2) Suc.prems l by simp
    have "(\<Sum>k = l..<63. cnt k (unat n)) = cnt l (unat n) + (\<Sum>k = l + 1..<63. cnt k (unat n))"
      using l by (simp add: sum.atLeast_Suc_lessThan)
    then show ?thesis
      using False nz IH step by (simp add: nodesUpto_loop.simps[of n a l] add.assoc)
  qed
qed

lemma nodesUpto_nat: "unat n < 2 ^ 63 \<Longrightarrow> nodesUpto n = Inr (of_nat (nun (unat n)))"
proof -
  assume b: "unat n < 2 ^ 63"
  have "nodesUpto n = Inr (n + of_nat (\<Sum>k = 0..<63. cnt k (unat n)))"
    unfolding nodesUpto_def using b by (rule nodesUpto_loop_nat) simp
  moreover have "unat n + (\<Sum>k<63. cnt k (unat n)) = nun (unat n)"
    using b by (rule nun_sum)
  moreover have "n = of_nat (unat n)" by simp
  ultimately show ?thesis
    by (metis of_nat_add atLeast0LessThan)
qed

lemma nodesUpto_panic_loop:
  "2 ^ 63 \<le> unat n \<Longrightarrow> l \<le> 64 \<Longrightarrow> nodesUpto_loop n a l = Inl PanicDivideByZero"
proof (induction "64 - l" arbitrary: l a)
  case 0
  then have l: "l = 64" by simp
  have z: "(2 ^ l :: uint64) = 0" unfolding exp_eq_zero_iff using l by simp
  show ?case by (subst nodesUpto_loop.simps) (simp add: z)
next
  case (Suc d)
  then have l: "l < 64" by simp
  have "(2::nat) ^ l \<le> 2 ^ 63" using l by (intro power_increasing) simp_all
  then have nl: "\<not> n < 2 ^ l"
    using Suc.prems(1) l by (simp add: word_less_nat_alt unat_2p)
  have nz: "(2 ^ l :: uint64) \<noteq> 0"
    using l by (simp add: exp_eq_zero_iff)
  have ih: "nodesUpto_loop n b (Suc l) = Inl PanicDivideByZero" for b
    using Suc.hyps(1)[of "l + 1" b] Suc.hyps(2) Suc.prems l by simp
  show ?case
    by (subst nodesUpto_loop.simps) (simp add: nl nz ih)
qed

lemma levelsAt_loop_pc: "levelsAt_loop w l = l + pc (unat w)"
proof (induction w l rule: levelsAt_loop.induct)
  case (1 w l)
  show ?case
  proof (cases "0 < w")
    case True
    then have nz: "unat w \<noteq> 0" by (simp add: word_greater_zero_iff unat_eq_0)
    have m: "(w mod 2 = 1) = (unat w mod 2 = 1)"
    proof -
      have "(w mod 2 = 1) = (unat (w mod 2) = unat (1::uint64))" by (simp only: word_unat_eq_iff)
      then show ?thesis by (simp add: unat_mod)
    qed
    have d: "unat (drop_bit 1 w) = unat w div 2"
      by (simp only: unat_drop_bit_eq) (simp add: drop_bit_eq_div)
    have "levelsAt_loop w l = levelsAt_loop (drop_bit 1 w) (if w mod 2 = 1 then l + 1 else l)"
      using True by (subst levelsAt_loop.simps) simp
    also have "\<dots> = (if w mod 2 = 1 then l + 1 else l) + pc (unat w div 2)"
      using "1.IH"[OF True] d by simp
    also have "\<dots> = l + pc (unat w)"
      using nz m by (subst (2) pc.simps) auto
    finally show ?thesis .
  next
    case False
    then have "unat w = 0" by (simp add: word_greater_zero_iff unat_eq_0)
    then show ?thesis using False by (simp add: levelsAt_loop.simps[of w l] pc.simps[of 0])
  qed
qed

section \<open>Words, shifts and bit tests\<close>

lemma unat_shift_floor:
  fixes x :: uint64
  shows "unat (push_bit h (drop_bit h x)) = unat x div 2 ^ h * 2 ^ h"
proof (cases "h < 64")
  case True
  have le: "unat x div 2 ^ h * 2 ^ h \<le> unat x"
    by (metis div_mult_mod_eq le_add1)
  have lt: "unat x < 2 ^ 64" using unsigned_less[of x] by simp
  have d: "unat (drop_bit h x) = unat x div 2 ^ h"
    by (simp only: unat_drop_bit_eq) (simp add: drop_bit_eq_div)
  have "unat (push_bit h (drop_bit h x)) = (unat (drop_bit h x) * 2 ^ h) mod 2 ^ 64"
    by (simp add: push_bit_eq_mult unat_word_ariths unat_2p True)
  also have "\<dots> = unat x div 2 ^ h * 2 ^ h"
    unfolding d by (rule mod_less) (rule le_less_trans[OF le lt])
  finally show ?thesis .
next
  case False
  then have h: "64 \<le> h" by simp
  have lt: "unat x < 2 ^ 64" using unsigned_less[of x] by simp
  have "(2::nat) ^ 64 \<le> 2 ^ h" using h by (intro power_increasing) simp_all
  then have "unat x div 2 ^ h = 0" using lt by simp
  moreover have z: "(2 ^ h :: uint64) = 0" using h by (simp add: exp_eq_zero_iff)
  have "drop_bit h x = 0"
    by (simp only: drop_bit_eq_div z div_by_0)
  ultimately show ?thesis by simp
qed

lemma bit_test_nat:
  fixes x :: uint64
  assumes "h < 64"
  shows "(x AND push_bit h 1 > 0) = odd (unat x div 2 ^ h)"
proof -
  have "(x AND push_bit h 1 > 0) = (x AND push_bit h 1 \<noteq> 0)"
    by (simp add: word_greater_zero_iff)
  also have "\<dots> = bit x h"
    using assms by (simp add: and_exp_eq_0_iff_not_bit)
  also have "\<dots> = bit (unat x) h"
    by (simp add: bit_unsigned_iff)
  also have "\<dots> = odd (unat x div 2 ^ h)"
    by (rule bit_iff_odd)
  finally show ?thesis .
qed

lemma nodesUntil_ok:
  assumes "n \<noteq> 0" and "unat n \<le> 2 ^ 63"
  shows "nodesUntil n = Inr (of_nat (nun (unat n - 1)))"
proof (cases "n = 1")
  case True
  then show ?thesis by (simp add: nodesUntil_def)
next
  case False
  have un: "unat (n - 1) = unat n - 1" using assms(1) by (rule unat_minus_one)
  have "0 < unat n" using assms(1) by (simp add: unat_gt_0)
  then have "unat (n - 1) < 2 ^ 63" using un assms(2) by simp
  then show ?thesis using False un nodesUpto_nat[of "n - 1"] by (simp add: nodesUntil_def)
qed

lemma node_ok:
  assumes "n \<noteq> 0" and "unat n \<le> 2 ^ 63"
  shows "node t n l =
    Inr (buffer 32 (fst (app_ReadAt 32 (sint ((of_nat (nun (unat n - 1)) + of_nat l :: uint64) * 32))
                           (dLog t))))"
  using nodesUntil_ok[OF assms] by (simp add: node_def)

lemma floor_bounds:
  fixes x :: uint64
  assumes h: "h < 64" and b: "x AND push_bit h 1 > 0"
  shows "push_bit h (drop_bit h x) \<noteq> 0" and "unat (push_bit h (drop_bit h x)) \<le> unat x"
proof -
  have o: "odd (unat x div 2 ^ h)" using bit_test_nat[OF h, of x] b by simp
  then have "0 < unat x div 2 ^ h" by (cases "unat x div 2 ^ h = 0") simp_all
  then have "0 < unat x div 2 ^ h * 2 ^ h" by simp
  then have "unat (push_bit h (drop_bit h x)) \<noteq> 0" by (simp only: unat_shift_floor)
  then show "push_bit h (drop_bit h x) \<noteq> 0" by (metis unat_0)
  show "unat (push_bit h (drop_bit h x)) \<le> unat x"
    unfolding unat_shift_floor by (metis div_mult_mod_eq le_add1)
qed

lemma inclusionProof_loop_ok:
  "j \<noteq> 0 \<Longrightarrow> unat j \<le> 2 ^ 63 \<Longrightarrow> h \<le> 64 \<Longrightarrow>
   \<exists>p. inclusionProof_loop t i j h pr = Inr p"
proof (induction h arbitrary: j pr)
  case 0
  then show ?case by simp
next
  case (Suc h)
  have h: "h < 64" and h': "h \<le> 64" using Suc.prems(3) by simp_all
  have uj: "unat (j - 1) = unat j - 1" using Suc.prems(1) by (rule unat_minus_one)
  have hn: "\<exists>d. highestNode t j h = Inr d"
    using node_ok[OF Suc.prems(1,2)] by (simp add: highestNode_def)
  show ?case
  proof (cases "(j - 1) AND push_bit h 1 > 0")
    case False
    then show ?thesis using Suc.IH[OF Suc.prems(1,2) h'] by simp
  next
    case True
    define k where "k = push_bit h (drop_bit h (j - 1))"
    have k0: "k \<noteq> 0" and kle: "unat k \<le> unat (j - 1)"
      unfolding k_def using floor_bounds[OF h True] by simp_all
    have kb: "unat k \<le> 2 ^ 63" using kle uj Suc.prems(2) by simp
    obtain d where d: "highestNode t j h = Inr d" using hn by blast
    obtain nd where nd: "node t k h = Inr nd" using node_ok[OF k0 kb] by blast
    obtain p where p: "inclusionProof_loop t i k h [] = Inr p"
      using Suc.IH[OF k0 kb h'] by blast
    obtain q where q: "inclusionProof_loop t i j h (nd # pr) = Inr q"
      using Suc.IH[OF Suc.prems(1,2) h'] by blast
    show ?thesis
      using True d nd p q by (simp add: k_def[symmetric] Let_def)
  qed
qed

lemma consistencyProof_loop_ok:
  "j \<noteq> 0 \<Longrightarrow> unat j \<le> 2 ^ 63 \<Longrightarrow> h \<le> 64 \<Longrightarrow>
   \<exists>p. consistencyProof_loop t i j h pr = Inr p"
proof (induction h arbitrary: j pr)
  case 0
  then show ?case by simp
next
  case (Suc h)
  have h: "h < 64" and h': "h \<le> 64" using Suc.prems(3) by simp_all
  have uj: "unat (j - 1) = unat j - 1" using Suc.prems(1) by (rule unat_minus_one)
  have hn: "\<exists>d. highestNode t j h = Inr d"
    using node_ok[OF Suc.prems(1,2)] by (simp add: highestNode_def)
  show ?case
  proof (cases "(j - 1) AND push_bit h 1 > 0")
    case False
    then show ?thesis using Suc.IH[OF Suc.prems(1,2) h'] by simp
  next
    case True
    define k where "k = push_bit h (drop_bit h (j - 1))"
    have k0: "k \<noteq> 0" and kle: "unat k \<le> unat (j - 1)"
      unfolding k_def using floor_bounds[OF h True] by simp_all
    have kb: "unat k \<le> 2 ^ 63" using kle uj Suc.prems(2) by simp
    obtain d where d: "highestNode t j h = Inr d" using hn by blast
    obtain nd where nd: "node t k h = Inr nd" using node_ok[OF k0 kb] by blast
    obtain dk where dk: "highestNode t k h = Inr dk"
      using node_ok[OF k0 kb] by (simp add: highestNode_def)
    obtain p where p: "consistencyProof_loop t i k h [] = Inr p"
      using Suc.IH[OF k0 kb h'] by blast
    obtain q where q: "consistencyProof_loop t i j h (nd # pr) = Inr q"
      using Suc.IH[OF Suc.prems(1,2) h'] by blast
    show ?thesis
      using True d nd dk p q by (auto simp: k_def[symmetric] Let_def)
  qed
qed

lemma blen_le: "n < 2 ^ m \<Longrightarrow> blen n \<le> m"
proof (induction m arbitrary: n)
  case 0
  then show ?case by (simp add: blen.simps)
next
  case (Suc m)
  show ?case
  proof (cases "n = 0")
    case True
    then show ?thesis by (simp add: blen.simps)
  next
    case False
    have "n div 2 < 2 ^ m" using Suc.prems by simp
    then have "blen (n div 2) \<le> m" by (rule Suc.IH)
    then show ?thesis using False by (subst blen.simps) simp
  qed
qed

lemma Len64_blen: "Len64 x = blen (unat x)"
proof (induction x rule: Len64.induct)
  case (1 x)
  show ?case
  proof (cases "x = 0")
    case True
    then show ?thesis by (simp add: Len64.simps[of 0] blen.simps[of 0])
  next
    case False
    have d: "unat (drop_bit 1 x) = unat x div 2"
      by (simp only: unat_drop_bit_eq) (simp add: drop_bit_eq_div)
    have nz: "unat x \<noteq> 0" using False by (simp add: unat_eq_0)
    have "Len64 x = 1 + Len64 (drop_bit 1 x)" using False by (subst Len64.simps) simp
    also have "\<dots> = 1 + blen (unat x div 2)" using "1.IH"[OF False] d by simp
    also have "\<dots> = blen (unat x)" using nz by (subst (2) blen.simps) simp
    finally show ?thesis .
  qed
qed

lemma Len64_le: "Len64 x \<le> 64"
  unfolding Len64_blen using unsigned_less[of x] by (intro blen_le) simp

lemma go_div_nonneg: "0 \<le> a \<Longrightarrow> 0 < b \<Longrightarrow> go_div a b = a div b"
  by (cases "a = 0") (simp_all add: go_div_def)

lemma unat_size:
  assumes "0 \<le> c" and "c < 2 ^ 63"
  shows "unat (word_of_int (go_div c cLogEntrySize) :: uint64) = nat (c div 12)"
proof -
  have g: "go_div c cLogEntrySize = c div 12"
    using assms(1) by (simp add: go_div_nonneg cLogEntrySize_def)
  have "0 \<le> c div 12" using assms(1) by simp
  moreover have "c div 12 < 2 ^ 64" using assms(2) by simp
  ultimately show ?thesis
    unfolding g by (simp add: unat_eq_nat_uint uint_word_of_int take_bit_eq_mod)
qed

section \<open>The Merkle tree and the layout of the hash log\<close>

lemma blen_eq: "2 ^ h \<le> m \<Longrightarrow> m < 2 ^ Suc h \<Longrightarrow> blen m = Suc h"
proof (induction h arbitrary: m)
  case 0
  then have "m = Suc 0" by simp
  then show ?case by (simp add: blen.simps[of "Suc 0"] blen.simps[of 0])
next
  case (Suc h)
  have "2 ^ h \<le> m div 2" using Suc.prems(1) by simp
  moreover have "m div 2 < 2 ^ Suc h" using Suc.prems(2) by simp
  ultimately have "blen (m div 2) = Suc h" by (rule Suc.IH)
  moreover have "0 < (2::nat) ^ Suc h" by simp
  then have "m \<noteq> 0" using Suc.prems(1) by linarith
  ultimately show ?case by (simp add: blen.simps[of m])
qed

lemma lp2_unique: "2 ^ h < n \<Longrightarrow> n \<le> 2 ^ Suc h \<Longrightarrow> lp2 n = 2 ^ h"
proof -
  assume a: "2 ^ h < n" and b: "n \<le> 2 ^ Suc h"
  have "2 ^ h \<le> n - 1" using a by simp
  moreover have "n - 1 < 2 ^ Suc h" using a b by simp
  ultimately have "blen (n - 1) = Suc h" by (rule blen_eq)
  then show ?thesis by (simp add: lp2_def)
qed



lemma path_single: "length ds \<le> 1 \<Longrightarrow> path ds m = []"
  by (simp add: path.simps)

lemma path_split_left:
  "2 ^ h < length ds \<Longrightarrow> length ds \<le> 2 ^ Suc h \<Longrightarrow> m < 2 ^ h \<Longrightarrow>
   path ds m = path (take (2 ^ h) ds) m @ [mth (drop (2 ^ h) ds)]"
proof -
  assume a: "2 ^ h < length ds" and b: "length ds \<le> 2 ^ Suc h" and c: "m < 2 ^ h"
  have "1 \<le> (2::nat) ^ h" by simp
  then have "\<not> length ds \<le> 1" using a by linarith
  then show ?thesis using lp2_unique[OF a b] c by (subst path.simps) simp
qed

lemma path_split_right:
  "2 ^ h < length ds \<Longrightarrow> length ds \<le> 2 ^ Suc h \<Longrightarrow> \<not> m < 2 ^ h \<Longrightarrow>
   path ds m = path (drop (2 ^ h) ds) (m - 2 ^ h) @ [mth (take (2 ^ h) ds)]"
proof -
  assume a: "2 ^ h < length ds" and b: "length ds \<le> 2 ^ Suc h" and c: "\<not> m < 2 ^ h"
  have "1 \<le> (2::nat) ^ h" by simp
  then have "\<not> length ds \<le> 1" using a by linarith
  then show ?thesis using lp2_unique[OF a b] c by (subst path.simps) simp
qed

subsection \<open>SHA-256 returns 32 bytes\<close>








subsection \<open>Slices\<close>








subsection \<open>Rounding down to a multiple of a power of two\<close>





lemma floor_small: "(x::nat) < 2 ^ l \<Longrightarrow> x div 2 ^ l * 2 ^ l = 0"
  by simp


subsection \<open>The digests of one append\<close>





subsection \<open>Counting set bits\<close>






subsection \<open>The digests of one append, by index\<close>





subsection \<open>The hash log as a list of digests\<close>







subsection \<open>Digests of a prefix do not depend on later leaves\<close>







section \<open>The loop of Append\<close>













section \<open>One append on the tree\<close>


lemma length_PutUint32 [simp]: "length (PutUint32 v) = 4"
  by (simp add: PutUint32_def)

lemma length_PutUint64 [simp]: "length (PutUint64 v) = 8"
  by (simp add: PutUint64_def)







lemma nun_ge: "n \<le> nun n"
  by (induction n) simp_all






section \<open>Trees reached by successful appends\<close>










section \<open>The concrete trees\<close>



lemma nun_3: "nun 3 = 5"
proof -
  have "nun (Suc (Suc (Suc 0))) = 5" by (simp add: pc.simps)
  then show ?thesis by (simp only: numeral_3_eq_3)
qed




section \<open>Values of SHA-256\<close>

text \<open>
  The digests of the payloads of the concrete trees, computed block by block: the padded
  message, the state after each block, and the digest.
\<close>

lemma sched_numeral: "sched (numeral n) ws =
     sched (pred_numeral n)
       (add32 (add32 (add32 (ssig1 (ws ! 1)) (ws ! 6)) (ssig0 (ws ! 14))) (ws ! 15) # ws)"
  by (simp add: numeral_eq_Suc)

lemma replicate_numeral_unfold: "replicate (numeral n) x = x # replicate (pred_numeral n) x"
  by (simp add: numeral_eq_Suc)

lemma two_eq: "Suc (Suc 0) = 2"
  by simp

lemmas compress_eval = two_eq compress_def sched_numeral sha_k_def add32_def rotr_def
  ssig0_def ssig1_def bsig0_def bsig1_def ch_def maj_def sha_t1_def sha_t2_def sha_rounds_def

lemmas pad_eval = sha_pad_def be64_bytes_def be32_bytes_def replicate_numeral_unfold

lemma sha_pad_1: "sha_pad [1] =
  [1, 128, 0, 0, 0, 0, 0, 0, 0, 0, 0, 0, 0, 0, 0, 0, 0, 0, 0, 0, 0, 0, 0, 0, 0, 0, 0, 0, 0, 0, 0,
    0, 0, 0, 0, 0, 0, 0, 0, 0, 0, 0, 0, 0, 0, 0, 0, 0, 0, 0, 0, 0, 0, 0, 0, 0, 0, 0, 0, 0, 0,
    0, 0, 8]"
  by (simp add: pad_eval)

lemma compress_1: "compress sha_init
  [1, 128, 0, 0, 0, 0, 0, 0, 0, 0, 0, 0, 0, 0, 0, 0, 0, 0, 0, 0, 0, 0, 0, 0, 0, 0, 0, 0, 0, 0, 0,
    0, 0, 0, 0, 0, 0, 0, 0, 0, 0, 0, 0, 0, 0, 0, 0, 0, 0, 0, 0, 0, 0, 0, 0, 0, 0, 0, 0, 0, 0,
    0, 0, 8] =
  [1274352175, 876958917, 1004416699, 2362619875, 3512732374, 834897317, 3620528700, 2005222810]"
  by (simp add: compress_eval sha_init_def)

lemma sha256_1: "sha256 [1] =
  [75, 245, 18, 47, 52, 69, 84, 197, 59, 222, 46, 187, 140, 210, 183, 227, 209, 96, 10, 214, 49,
    195, 133, 165, 215, 204, 226, 60, 119, 133, 69, 154]"
  unfolding sha256_def sha_pad_1
  by (simp add: sha_blocks.simps [of _ "[]"] sha_blocks.simps [of sha_init] compress_1
      be32_bytes_def)

lemma sha_pad_2: "sha_pad [2] =
  [2, 128, 0, 0, 0, 0, 0, 0, 0, 0, 0, 0, 0, 0, 0, 0, 0, 0, 0, 0, 0, 0, 0, 0, 0, 0, 0, 0, 0, 0, 0,
    0, 0, 0, 0, 0, 0, 0, 0, 0, 0, 0, 0, 0, 0, 0, 0, 0, 0, 0, 0, 0, 0, 0, 0, 0, 0, 0, 0, 0, 0,
    0, 0, 8]"
  by (simp add: pad_eval)

lemma compress_2: "compress sha_init
  [2, 128, 0, 0, 0, 0, 0, 0, 0, 0, 0, 0, 0, 0, 0, 0, 0, 0, 0, 0, 0, 0, 0, 0, 0, 0, 0, 0, 0, 0, 0,
    0, 0, 0, 0, 0, 0, 0, 0, 0, 0, 0, 0, 0, 0, 0, 0, 0, 0, 0, 0, 0, 0, 0, 0, 0, 0, 0, 0, 0, 0,
    0, 0, 8] =
  [3686905033, 16770189, 1465605541, 3325559809, 636902832, 4265485385, 1266084504, 1683478918]"
  by (simp add: compress_eval sha_init_def)

lemma sha256_2: "sha256 [2] =
  [219, 193, 180, 201, 0, 255, 228, 141, 87, 91, 93, 165, 198, 56, 4, 1, 37, 246, 93, 176, 254,
    62, 36, 73, 75, 118, 234, 152, 100, 87, 217, 134]"
  unfolding sha256_def sha_pad_2
  by (simp add: sha_blocks.simps [of _ "[]"] sha_blocks.simps [of sha_init] compress_2
      be32_bytes_def)

lemma sha_pad_3: "sha_pad [3] =
  [3, 128, 0, 0, 0, 0, 0, 0, 0, 0, 0, 0, 0, 0, 0, 0, 0, 0, 0, 0, 0, 0, 0, 0, 0, 0, 0, 0, 0, 0, 0,
    0, 0, 0, 0, 0, 0, 0, 0, 0, 0, 0, 0, 0, 0, 0, 0, 0, 0, 0, 0, 0, 0, 0, 0, 0, 0, 0, 0, 0, 0,
    0, 0, 8]"
  by (simp add: pad_eval)

lemma compress_3: "compress sha_init
  [3, 128, 0, 0, 0, 0, 0, 0, 0, 0, 0, 0, 0, 0, 0, 0, 0, 0, 0, 0, 0, 0, 0, 0, 0, 0, 0, 0, 0, 0, 0,
    0, 0, 0, 0, 0, 0, 0, 0, 0, 0, 0, 0, 0, 0, 0, 0, 0, 0, 0, 0, 0, 0, 0, 0, 0, 0, 0, 0, 0, 0,
    0, 0, 8] =
  [139455752, 3111694157, 2098817652, 1185442648, 10380139, 1629335906, 297163418, 2919180741]"
  by (simp add: compress_eval sha_init_def)

lemma sha256_3: "sha256 [3] =
  [8, 79, 237, 8, 185, 120, 175, 77, 125, 25, 106, 116, 70, 168, 107, 88, 0, 158, 99, 107, 97,
    29, 177, 98, 17, 182, 90, 154, 173, 255, 41, 197]"
  unfolding sha256_def sha_pad_3
  by (simp add: sha_blocks.simps [of _ "[]"] sha_blocks.simps [of sha_init] compress_3
      be32_bytes_def)

lemma sha_pad_12: "sha_pad
  [1, 75, 245, 18, 47, 52, 69, 84, 197, 59, 222, 46, 187, 140, 210, 183, 227, 209, 96, 10, 214,
    49, 195, 133, 165, 215, 204, 226, 60, 119, 133, 69, 154, 219, 193, 180, 201, 0, 255, 228,
    141, 87, 91, 93, 165, 198, 56, 4, 1, 37, 246, 93, 176, 254, 62, 36, 73, 75, 118, 234, 152,
    100, 87, 217, 134] =
  [1, 75, 245, 18, 47, 52, 69, 84, 197, 59, 222, 46, 187, 140, 210, 183, 227, 209, 96, 10, 214,
    49, 195, 133, 165, 215, 204, 226, 60, 119, 133, 69, 154, 219, 193, 180, 201, 0, 255, 228,
    141, 87, 91, 93, 165, 198, 56, 4, 1, 37, 246, 93, 176, 254, 62, 36, 73, 75, 118, 234, 152,
    100, 87, 217, 134, 128, 0, 0, 0, 0, 0, 0, 0, 0, 0, 0, 0, 0, 0, 0, 0, 0, 0, 0, 0, 0, 0, 0,
    0, 0, 0, 0, 0, 0, 0, 0, 0, 0, 0, 0, 0, 0, 0, 0, 0, 0, 0, 0, 0, 0, 0, 0, 0, 0, 0, 0, 0, 0,
    0, 0, 0, 0, 0, 0, 0, 0, 2, 8]"
  by (simp add: pad_eval)

lemma compress_12a: "compress sha_init
  [1, 75, 245, 18, 47, 52, 69, 84, 197, 59, 222, 46, 187, 140, 210, 183, 227, 209, 96, 10, 214,
    49, 195, 133, 165, 215, 204, 226, 60, 119, 133, 69, 154, 219, 193, 180, 201, 0, 255, 228,
    141, 87, 91, 93, 165, 198, 56, 4, 1, 37, 246, 93, 176, 254, 62, 36, 73, 75, 118, 234, 152,
    100, 87, 217] =
  [1203496670, 2515860846, 1222677604, 1467053960, 2946394325, 3556868299, 666262885, 634237013]"
  by (simp add: compress_eval sha_init_def)

lemma compress_12b: "compress
  [1203496670, 2515860846, 1222677604, 1467053960, 2946394325, 3556868299, 666262885, 634237013]
  [134, 128, 0, 0, 0, 0, 0, 0, 0, 0, 0, 0, 0, 0, 0, 0, 0, 0, 0, 0, 0, 0, 0, 0, 0, 0, 0, 0, 0, 0,
    0, 0, 0, 0, 0, 0, 0, 0, 0, 0, 0, 0, 0, 0, 0, 0, 0, 0, 0, 0, 0, 0, 0, 0, 0, 0, 0, 0, 0, 0,
    0, 0, 2, 8] =
  [3213695675, 467687422, 2057695925, 1661099000, 200540569, 2377159913, 831170902, 3218441405]"
  by (simp add: compress_eval)

lemma node_hash_12: "node_hash (sha256 [1]) (sha256 [2]) =
  [191, 141, 26, 187, 27, 224, 87, 254, 122, 165, 242, 181, 99, 2, 91, 248, 11, 244, 1, 153, 141,
    176, 148, 233, 49, 138, 169, 86, 191, 213, 132, 189]"
  unfolding node_hash_def sha256_1 sha256_2 NodePrefix_def append.simps
  unfolding sha256_def sha_pad_12
  by (simp add: sha_blocks.simps [of _ "[]"] sha_blocks.simps [of sha_init]
      sha_blocks.simps [of "[1203496670, 2515860846, 1222677604, 1467053960, 2946394325, 3556868299, 666262885, 634237013]"]
      compress_12a compress_12b be32_bytes_def)

section \<open>Claims on the geometry\<close>

lemma nodesUpto_small: "n < 2 ^ 63 \<Longrightarrow> nodesUpto n = Inr (of_nat (nun (unat n)))"
  by (rule nodesUpto_nat) (simp add: word_less_nat_alt)

lemma nodesUpto_large: "2 ^ 63 \<le> n \<Longrightarrow> nodesUpto n = Inl PanicDivideByZero"
  unfolding nodesUpto_def by (rule nodesUpto_panic_loop) (simp_all add: word_le_nat_alt)

text \<open>
  C5 (as amended). \<open>nodesUpto\<close> is defined by a terminating recursion, and for every
  \<open>n\<close> below \<open>2^63\<close> it returns a value without a runtime fault; \<open>nodesUpto 0 = 0\<close>.
\<close>

theorem C5_nodesUpto_defined_below_2p63:
  "n < 2 ^ 63 \<Longrightarrow> (\<exists>v. nodesUpto n = Inr v) \<and> nodesUpto 0 = Inr 0"
  using nodesUpto_small[of n] nodesUpto_small[of 0] by simp

theorem C5_nodesUpto_defined_witness:
  "(5 :: uint64) < 2 ^ 63 \<and> (\<exists>v. nodesUpto 5 = Inr v) \<and> nodesUpto 0 = Inr 0"
  using C5_nodesUpto_defined_below_2p63[of 5] by simp

text \<open>
  C5, as stated, fails: at \<open>n = 2^63\<close> the loop reaches \<open>l = 64\<close>, where
  \<open>1 << l\<close> is \<open>0\<close>, and \<open>n / (1 << l)\<close> divides by zero.
\<close>

theorem C5_nodesUpto_total_counterexample:
  "nodesUpto (2 ^ 63) = Inl PanicDivideByZero"
  by (rule nodesUpto_large) simp

text \<open>
  C6 (as amended). For every \<open>n\<close> with \<open>1 \<le> n < 2^63\<close>:
  \<open>nodesUpto n = nodesUntil n + levelsAt n + 1\<close>, in \<open>uint64\<close> arithmetic.
\<close>

theorem C6_geometry_identity_below_2p63:
  "1 \<le> n \<Longrightarrow> n < 2 ^ 63 \<Longrightarrow> geometry_identity n"
proof -
  assume n1: "1 \<le> n" and nb: "n < 2 ^ 63"
  have nz: "n \<noteq> 0" using n1 by auto
  then have un: "unat (n - 1) = unat n - 1" by (rule unat_minus_one)
  have pos: "0 < unat n" using nz by (simp add: unat_gt_0)
  have "unat (n - 1) < 2 ^ 63" using un nb by (simp add: word_less_nat_alt)
  then have u: "nodesUpto (n - 1) = Inr (of_nat (nun (unat n - 1)))"
    using nodesUpto_nat[of "n - 1"] un by simp
  have "n = 1 \<Longrightarrow> nun (unat n - 1) = 0" by simp
  then have until: "nodesUntil n = Inr (of_nat (nun (unat n - 1)))"
    using u by (auto simp: nodesUntil_def)
  have lv: "levelsAt n = pc (unat n - 1)"
    by (simp add: levelsAt_def levelsAt_loop_pc un)
  have "nun (Suc (unat n - 1)) = nun (unat n - 1) + 1 + pc (unat n - 1)" by simp
  then have "nun (unat n) = nun (unat n - 1) + pc (unat n - 1) + 1" using pos by simp
  then show ?thesis
    using nodesUpto_small[OF nb] until lv by (simp add: geometry_identity_def)
qed

theorem C6_geometry_identity_witness:
  "(1 :: uint64) \<le> 6 \<and> (6 :: uint64) < 2 ^ 63 \<and> geometry_identity 6"
  using C6_geometry_identity_below_2p63[of 6] by simp

text \<open>
  C6, as stated for every \<open>n \<ge> 1\<close>, fails at \<open>n = 2^63\<close>, where \<open>nodesUpto n\<close>
  has no value.
\<close>

theorem C6_geometry_identity_counterexample:
  "(1 :: uint64) \<le> 2 ^ 63 \<and> \<not> geometry_identity (2 ^ 63)"
proof -
  have "nodesUpto (2 ^ 63) = Inl PanicDivideByZero" by (rule nodesUpto_large) simp
  then show ?thesis by (simp add: geometry_identity_def)
qed

text \<open>
  C7. The reference values of \<open>nodesUpto\<close> for \<open>n = 1..16\<close>.
\<close>

theorem C7_nodesUpto_table:
  "nodesUpto 1 = Inr 1 \<and> nodesUpto 2 = Inr 3 \<and> nodesUpto 3 = Inr 5 \<and> nodesUpto 4 = Inr 8
   \<and> nodesUpto 5 = Inr 10 \<and> nodesUpto 6 = Inr 13 \<and> nodesUpto 7 = Inr 16 \<and> nodesUpto 8 = Inr 20
   \<and> nodesUpto 9 = Inr 22 \<and> nodesUpto 10 = Inr 25 \<and> nodesUpto 11 = Inr 28 \<and> nodesUpto 12 = Inr 32
   \<and> nodesUpto 13 = Inr 35 \<and> nodesUpto 14 = Inr 39 \<and> nodesUpto 15 = Inr 43 \<and> nodesUpto 16 = Inr 48"
  by (simp add: nodesUpto_def nodesUpto_loop.simps)

section \<open>Claims on the lifecycle\<close>


lemma closed_after_Close: "closed (snd (Close t))"
  by (simp add: Close_def Let_def split: prod.splits)

lemma after_Close_already_closed:
  assumes "t' = snd (Close t)"
  shows "fst (Append d t') = Inl ErrAlreadyClosed"
    and "Root t' = Inl ErrAlreadyClosed"
    and "RootAt n t' = Inl ErrAlreadyClosed"
    and "DataAt n t' = Inl ErrAlreadyClosed"
    and "InclusionProof i j t' = Inl ErrAlreadyClosed"
    and "ConsistencyProof i j t' = Inl ErrAlreadyClosed"
    and "Sync t' = Some ErrAlreadyClosed"
    and "fst (Close t') = Some ErrAlreadyClosed"
  using closed_after_Close[of t] assms
  by (simp_all add: Append_def Root_def RootAt_def DataAt_def InclusionProof_def
      ConsistencyProof_def Sync_def Close_def)

text \<open>
  C8 (the code at the failing input). \<open>Size\<close> has no \<open>closed\<close> check: on the tree that
  \<open>OpenWith\<close> makes of three fresh logs, after \<open>Close\<close> has returned without error,
  \<open>Size\<close> returns 0 and no error, where the claim says already-closed.
\<close>

theorem C8_Size_after_Close_returns:
  "fst (Close fresh_tree) = None \<and> closed (snd (Close fresh_tree))
   \<and> Size (snd (Close fresh_tree)) = Inr 0"
  by (simp add: Close_def Size_def fresh_tree_def fresh_log_def app_Close_def go_div_def
      cLogEntrySize_def)

text \<open>
  C9 (as amended). \<open>Close\<close> on a tree that is not closed closes each of the three logs,
  whatever the others return, marks the tree closed, and returns no error when no log
  failed and otherwise the wrapper \<open>MultiErr\<close> around the errors collected, in the order
  P, D, C: also when exactly one log failed.
\<close>

theorem C9_Close_collects_all_errors:
  "\<not> closed t \<Longrightarrow>
   Close t =
     (if close_errors t = [] then None else Some (MultiErr (close_errors t)),
      t\<lparr>closed := True, pLog := snd (app_Close (pLog t)), dLog := snd (app_Close (dLog t)),
         cLog := snd (app_Close (cLog t))\<rparr>)"
  by (auto simp: Close_def close_errors_def List.map_filter_def Let_def
      split: prod.splits option.splits)

theorem C9_Close_collects_witness:
  "\<not> closed fresh_tree \<and>
   Close fresh_tree =
     (if close_errors fresh_tree = [] then None else Some (MultiErr (close_errors fresh_tree)),
      fresh_tree\<lparr>closed := True, pLog := snd (app_Close (pLog fresh_tree)),
         dLog := snd (app_Close (dLog fresh_tree)), cLog := snd (app_Close (cLog fresh_tree))\<rparr>)"
  using C9_Close_collects_all_errors[of fresh_tree] by (simp add: fresh_tree_def)

text \<open>
  C9, as stated, fails: when only the payload log fails to close, the result is the wrapper
  around that one error, not the error itself.
\<close>

theorem C9_single_failure_counterexample:
  "fst (Close (fresh_tree\<lparr>pLog := fresh_log\<lparr>close_err := Some (ErrLog ''p'')\<rparr>\<rparr>))
     = Some (MultiErr [ErrLog ''p''])
   \<and> fst (Close (fresh_tree\<lparr>pLog := fresh_log\<lparr>close_err := Some (ErrLog ''p'')\<rparr>\<rparr>))
     \<noteq> Some (ErrLog ''p'')"
  by (simp add: Close_def fresh_tree_def fresh_log_def app_Close_def)

section \<open>Claim on the errors of the proofs\<close>

lemma node_read_fails:
  "read_err (dLog t) = Some e \<Longrightarrow> node t n l = Inr d \<Longrightarrow> d = zero_digest"
  by (auto simp: node_def app_ReadAt_def buffer_def zero_digest_def Let_def split: sum.splits)

lemma highestNode_read_fails:
  "read_err (dLog t) = Some e \<Longrightarrow> highestNode t n l = Inr d \<Longrightarrow> d = zero_digest"
  unfolding highestNode_def by (rule node_read_fails)

lemma inclusionProof_loop_zero:
  "read_err (dLog t) = Some e \<Longrightarrow> inclusionProof_loop t i j h pr = Inr p \<Longrightarrow>
   set p \<subseteq> set pr \<union> {zero_digest}"
proof (induction h arbitrary: j pr p)
  case 0
  then show ?case by auto
next
  case (Suc h)
  show ?case
  proof (cases "(j - 1) AND push_bit h 1 > 0")
    case False
    then show ?thesis using Suc.IH[OF Suc.prems(1)] Suc.prems(2) by simp
  next
    case True
    define k where "k = push_bit h (drop_bit h (j - 1))"
    show ?thesis
    proof (cases "i \<le> k")
      case le: True
      from Suc.prems(2) True le obtain hn q where
        hn: "highestNode t j h = Inr hn" and q: "inclusionProof_loop t i k h [] = Inr q"
        and p: "p = q @ hn # pr"
        by (auto simp: k_def[symmetric] Let_def split: sum.splits)
      have "hn = zero_digest" using highestNode_read_fails[OF Suc.prems(1) hn] .
      moreover have "set q \<subseteq> {zero_digest}" using Suc.IH[OF Suc.prems(1) q] by simp
      ultimately show ?thesis using p by auto
    next
      case gt: False
      from Suc.prems(2) True gt obtain nd where
        nd: "node t k h = Inr nd" and q: "inclusionProof_loop t i j h (nd # pr) = Inr p"
        by (auto simp: k_def[symmetric] Let_def split: sum.splits)
      have "nd = zero_digest" using node_read_fails[OF Suc.prems(1) nd] .
      then show ?thesis using Suc.IH[OF Suc.prems(1) q] by auto
    qed
  qed
qed

lemma consistencyProof_loop_zero:
  "read_err (dLog t) = Some e \<Longrightarrow> consistencyProof_loop t i j h pr = Inr p \<Longrightarrow>
   set p \<subseteq> set pr \<union> {zero_digest}"
proof (induction h arbitrary: j pr p)
  case 0
  then show ?case by auto
next
  case (Suc h)
  show ?case
  proof (cases "(j - 1) AND push_bit h 1 > 0")
    case False
    then show ?thesis using Suc.IH[OF Suc.prems(1)] Suc.prems(2) by simp
  next
    case True
    define k where "k = push_bit h (drop_bit h (j - 1))"
    show ?thesis
    proof (cases "i \<le> k")
      case le: True
      from Suc.prems(2) True le obtain hn q where
        hn: "highestNode t j h = Inr hn"
        and q: "(if i < k then consistencyProof_loop t i k h [] else Inr []) = Inr q"
        and p: "(if i = k then (case highestNode t i h of Inl e \<Rightarrow> Inl e
                                | Inr hi \<Rightarrow> Inr (hi # q @ hn # pr))
                 else Inr (q @ hn # pr)) = Inr p"
        by (auto simp: k_def[symmetric] Let_def split: sum.splits)
      have z: "hn = zero_digest" using highestNode_read_fails[OF Suc.prems(1) hn] .
      have qs: "set q \<subseteq> {zero_digest}"
        using q Suc.IH[OF Suc.prems(1), of k "[]" q] by (auto split: if_splits)
      show ?thesis
        using p z qs highestNode_read_fails[OF Suc.prems(1), of i h]
        by (auto split: if_splits sum.splits)
    next
      case gt: False
      from Suc.prems(2) True gt obtain nd where
        nd: "node t k h = Inr nd"
        and q: "(if i = j then (case highestNode t i h of Inl e \<Rightarrow> Inl e
                                | Inr hi \<Rightarrow> Inr (hi # nd # pr))
                 else consistencyProof_loop t i j h (nd # pr)) = Inr p"
        by (auto simp: k_def[symmetric] Let_def split: sum.splits)
      have z: "nd = zero_digest" using node_read_fails[OF Suc.prems(1) nd] .
      show ?thesis
        using q z highestNode_read_fails[OF Suc.prems(1), of i h]
          Suc.IH[OF Suc.prems(1), of j "nd # pr" p]
        by (auto split: if_splits sum.splits)
    qed
  qed
qed

text \<open>
  C10. On a tree that is not closed, whose commit-log size is a byte count (between 0 and
  \<open>2^63\<close>), for every \<open>1 \<le> i \<le> j \<le> Size\<close>, \<open>InclusionProof i j\<close> and
  \<open>ConsistencyProof i j\<close> return a path and never an error. When reads of the hash log
  fail, the path holds zero-initialised digests only, whereas \<open>RootAt j\<close> returns the
  read error.
\<close>

theorem C10_proofs_swallow_read_errors:
  assumes "\<not> closed t" and "0 \<le> cLogSize t" and "cLogSize t < 2 ^ 63"
    and "Size t = Inr n" and "1 \<le> i" and "i \<le> j" and "j \<le> n"
  shows "(\<exists>p. InclusionProof i j t = Inr p
              \<and> (read_err (dLog t) \<noteq> None \<longrightarrow> set p \<subseteq> {zero_digest}))
       \<and> (\<exists>p. ConsistencyProof i j t = Inr p
              \<and> (read_err (dLog t) \<noteq> None \<longrightarrow> set p \<subseteq> {zero_digest}))
       \<and> (\<forall>e. read_err (dLog t) = Some e \<longrightarrow> RootAt j t = Inl e)"
proof -
  have n: "n = word_of_int (go_div (cLogSize t) cLogEntrySize)"
    using assms(4) by (simp add: Size_def)
  have un: "unat n = nat (cLogSize t div 12)"
    unfolding n using assms(2,3) by (rule unat_size)
  have "cLogSize t div 12 < 2 ^ 63" using assms(3) by simp
  then have nb: "unat n < 2 ^ 63" using un assms(2) by simp
  have jn: "unat j \<le> unat n" using assms(7) by (simp add: word_le_nat_alt)
  have jb: "unat j \<le> 2 ^ 63" using jn nb by simp
  have j0: "j \<noteq> 0" using assms(5,6) by auto
  have n0: "n \<noteq> 0" using j0 assms(7) by auto
  have c0: "cLogSize t \<noteq> 0" using n0 n by (auto simp: go_div_def)
  have nj: "\<not> j > n" using assms(7) by simp
  have nij: "\<not> i > j" using assms(6) by simp
  obtain p where p: "inclusionProof_loop t i j (Len64 (j - 1)) [] = Inr p"
    using inclusionProof_loop_ok[OF j0 jb Len64_le] by blast
  obtain q where q: "consistencyProof_loop t i j (Len64 (j - 1)) [] = Inr q"
    using consistencyProof_loop_ok[OF j0 jb Len64_le] by blast
  have P: "InclusionProof i j t = Inr p"
    using assms(1) nij nj p by (simp add: InclusionProof_def inclusionProof_def n[symmetric])
  have Q: "ConsistencyProof i j t = Inr q"
    using assms(1) nij nj q by (simp add: ConsistencyProof_def consistencyProof_def n[symmetric])
  have pz: "read_err (dLog t) \<noteq> None \<longrightarrow> set p \<subseteq> {zero_digest}"
    using inclusionProof_loop_zero[OF _ p] by auto
  have qz: "read_err (dLog t) \<noteq> None \<longrightarrow> set q \<subseteq> {zero_digest}"
    using consistencyProof_loop_zero[OF _ q] by auto
  have R: "\<forall>e. read_err (dLog t) = Some e \<longrightarrow> RootAt j t = Inl e"
    using assms(1) c0 nj nodesUntil_ok[OF j0 jb]
    by (simp add: RootAt_def n[symmetric] app_ReadAt_def Let_def)
  show ?thesis using P Q pz qz R by blast
qed

theorem C10_proofs_swallow_witness:
  "\<not> closed unreadable_tree \<and> 0 \<le> cLogSize unreadable_tree \<and> cLogSize unreadable_tree < 2 ^ 63
   \<and> Size unreadable_tree = Inr 2 \<and> (1 :: uint64) \<le> 1 \<and> (1 :: uint64) \<le> 2
   \<and> (2 :: uint64) \<le> 2
   \<and> InclusionProof 1 2 unreadable_tree = Inr [zero_digest]
   \<and> (\<exists>p. ConsistencyProof 1 2 unreadable_tree = Inr p \<and> set p \<subseteq> {zero_digest})
   \<and> RootAt 2 unreadable_tree = Inl (ErrLog ''io'')"
proof -
  have s: "Size unreadable_tree = Inr 2"
    by (simp add: Size_def unreadable_tree_def fresh_tree_def go_div_def cLogEntrySize_def)
  have h: "\<not> closed unreadable_tree" "0 \<le> cLogSize unreadable_tree"
    "cLogSize unreadable_tree < 2 ^ 63"
    by (simp_all add: unreadable_tree_def fresh_tree_def)
  have r: "read_err (dLog unreadable_tree) = Some (ErrLog ''io'')"
    by (simp add: unreadable_tree_def fresh_log_def)
  have l: "Len64 1 = 1" by (simp add: Len64.simps)
  have n2: "nodesUntil 2 = Inr 1" by (simp add: nodesUntil_def nodesUpto_def nodesUpto_loop.simps)
  have i: "InclusionProof 1 2 unreadable_tree = Inr [zero_digest]"
    using h s r
    by (simp add: InclusionProof_def inclusionProof_def Size_def l numeral_eq_Suc
        highestNode_def node_def n2 app_ReadAt_def buffer_def zero_digest_def)
  show ?thesis
    using C10_proofs_swallow_read_errors[of unreadable_tree 2 1 2] s h r i by auto
qed

section \<open>Claims on the root, the proofs and the data\<close>




end
